theory Spec2Isabelle
  imports Main "HOL-Library.Word" "HOL-Library.Multiset"
begin

unbundle bit_operations_syntax

section \<open>Go values: bytes, slices, panics\<close>

type_synonym byte = "8 word"

text \<open>
  A Go byte slice is a window on a backing array: \<open>elems\<close> are the \<open>len\<close> visible bytes,
  \<open>spare\<close> the bytes of the backing array between \<open>len\<close> and \<open>cap\<close>. A slice expression
  \<open>s[lo:hi]\<close> is checked against the capacity, not the length, so it can make bytes of
  \<open>spare\<close> visible; an index expression \<open>s[i]\<close> is checked against the length.
\<close>

record slice =
  elems :: "byte list"
  spare :: "byte list"

datatype panic = SliceBoundsOutOfRange | IndexOutOfRange | IntegerDivideByZero | MakeCapOutOfRange

definition len :: "slice \<Rightarrow> nat" where
  "len s = length (elems s)"

definition cap :: "slice \<Rightarrow> nat" where
  "cap s = length (elems s) + length (spare s)"

definition reslice :: "slice \<Rightarrow> nat \<Rightarrow> nat \<Rightarrow> panic + slice" where
  \<comment> \<open>\<open>s[lo:hi]\<close>\<close>
  "reslice s lo hi =
     (if lo \<le> hi \<and> hi \<le> cap s
      then Inr \<lparr>elems = take (hi - lo) (drop lo (elems s @ spare s)),
                spare = drop hi (elems s @ spare s)\<rparr>
      else Inl SliceBoundsOutOfRange)"

definition slice_from :: "slice \<Rightarrow> nat \<Rightarrow> panic + slice" where
  \<comment> \<open>\<open>s[lo:]\<close>, which is \<open>s[lo:len(s)]\<close>\<close>
  "slice_from s lo = reslice s lo (len s)"

definition slice_to :: "slice \<Rightarrow> nat \<Rightarrow> panic + slice" where
  \<comment> \<open>\<open>s[:hi]\<close>, which is \<open>s[0:hi]\<close>\<close>
  "slice_to s hi = reslice s 0 hi"

definition bigEndian_Uint16 :: "slice \<Rightarrow> panic + 16 word" where
  \<comment> \<open>\<open>binary.BigEndian.Uint16(b)\<close>: \<open>_ = b[1]; uint16(b[1]) | uint16(b[0])<<8\<close>\<close>
  "bigEndian_Uint16 b =
     (case elems b of
        b0 # b1 # _ \<Rightarrow> Inr (ucast b1 OR push_bit 8 (ucast b0))
      | _ \<Rightarrow> Inl IndexOutOfRange)"

definition bigEndian_PutUint16 :: "16 word \<Rightarrow> byte list" where
  \<comment> \<open>what \<open>binary.Write(buf, binary.BigEndian, v)\<close> appends for a \<open>uint16\<close>\<close>
  "bigEndian_PutUint16 v = [ucast (drop_bit 8 v), ucast v]"

section \<open>Compound messages (util.go)\<close>

subsection \<open>makeCompoundMessage\<close>

text \<open>
  \<open>compoundMsg\<close> is a constant of type \<open>messageType\<close> declared outside util.go; it is a
  parameter here. \<open>uint8(len(msgs))\<close> and \<open>uint16(len(m))\<close> are Go conversions, which
  keep the low 8 and 16 bits.
\<close>

definition writeLengths :: "byte list \<Rightarrow> byte list list \<Rightarrow> byte list" where
  \<comment> \<open>\<open>for _, m := range msgs { binary.Write(buf, binary.BigEndian, uint16(len(m))) }\<close>\<close>
  "writeLengths buf msgs =
     foldl (\<lambda>b m. b @ bigEndian_PutUint16 (word_of_nat (length m))) buf msgs"

definition writeBodies :: "byte list \<Rightarrow> byte list list \<Rightarrow> byte list" where
  \<comment> \<open>\<open>for _, m := range msgs { buf.Write(m) }\<close>\<close>
  "writeBodies buf msgs = foldl (\<lambda>b m. b @ m) buf msgs"

definition makeCompoundMessage :: "byte \<Rightarrow> byte list list \<Rightarrow> byte list" where
  "makeCompoundMessage compoundMsg msgs =
     (let buf = [];
          buf = buf @ [compoundMsg];
          buf = buf @ [word_of_nat (length msgs)];
          buf = writeLengths buf msgs;
          buf = writeBodies buf msgs
      in buf)"

subsection \<open>decodeCompoundMessage\<close>

text \<open>
  The three named results of the Go function. A part is a sub-slice of the input; its
  bytes are recorded. \<open>err\<close> carries the text given to \<open>fmt.Errorf\<close>.
\<close>

record decoded =
  trunc :: int
  parts :: "byte list list"
  err :: "string option"

function decodeLengths :: "slice \<Rightarrow> nat \<Rightarrow> nat \<Rightarrow> 16 word list \<Rightarrow> panic + 16 word list" where
  \<comment> \<open>\<open>for i := 0; i < int(numParts); i++ { lengths[i] = binary.BigEndian.Uint16(buf[i*2 : i*2+2]) }\<close>\<close>
  "decodeLengths buf n i lengths =
     (if i < n then
        (case reslice buf (i * 2) (i * 2 + 2) of
           Inl p \<Rightarrow> Inl p
         | Inr b \<Rightarrow>
             (case bigEndian_Uint16 b of
                Inl p \<Rightarrow> Inl p
              | Inr v \<Rightarrow>
                  if i < length lengths
                  then decodeLengths buf n (i + 1) (lengths[i := v])
                  else Inl IndexOutOfRange))
      else Inr lengths)"
  by pat_completeness auto
termination
  by (relation "measure (\<lambda>(buf, n, i, lengths). n - i)") auto

declare decodeLengths.simps [simp del]

fun splitParts :: "16 word list \<Rightarrow> nat \<Rightarrow> byte \<Rightarrow> slice \<Rightarrow> byte list list \<Rightarrow> panic + decoded" where
  \<comment> \<open>\<open>for idx, msgLen := range lengths { ... }\<close> and the final \<open>return\<close>\<close>
  "splitParts [] idx numParts buf ps = Inr \<lparr>trunc = 0, parts = ps, err = None\<rparr>"
| "splitParts (msgLen # rest) idx numParts buf ps =
     (if len buf < unat msgLen
      then Inr \<lparr>trunc = int (unat numParts) - int idx, parts = ps, err = None\<rparr>
      else
        (case slice_to buf (unat msgLen) of
           Inl p \<Rightarrow> Inl p
         | Inr sl \<Rightarrow>
             (case slice_from buf (unat msgLen) of
                Inl p \<Rightarrow> Inl p
              | Inr buf' \<Rightarrow> splitParts rest (idx + 1) numParts buf' (ps @ [elems sl]))))"

definition decodeCompoundMessage :: "slice \<Rightarrow> panic + decoded" where
  "decodeCompoundMessage buf =
     (if len buf < 1
      then Inr \<lparr>trunc = 0, parts = [], err = Some ''missing compound length byte''\<rparr>
      else
        let numParts = elems buf ! 0 in
        (case slice_from buf 1 of
           Inl p \<Rightarrow> Inl p
         | Inr buf1 \<Rightarrow>
             if len buf1 < unat (numParts * 2)
             then Inr \<lparr>trunc = 0, parts = [], err = Some ''truncated len slice''\<rparr>
             else
               (case decodeLengths buf1 (unat numParts) 0 (replicate (unat numParts) 0) of
                  Inl p \<Rightarrow> Inl p
                | Inr lengths \<Rightarrow>
                    (case slice_from buf1 (unat (numParts * 2)) of
                       Inl p \<Rightarrow> Inl p
                     | Inr buf2 \<Rightarrow> splitParts lengths 0 numParts buf2 []))))"


text \<open>
  The frame of \<open>makeCompoundMessage\<close> with the last \<open>j\<close> message bodies cut off its tail:
  the input of the truncation property.
\<close>

definition removeTailBodies :: "byte list \<Rightarrow> byte list list \<Rightarrow> nat \<Rightarrow> byte list" where
  "removeTailBodies frame L j =
     take (length frame - length (concat (drop (length L - j) L))) frame"

section \<open>Time\<close>

text \<open>
  A \<open>time.Time\<close> is an instant in nanoseconds, a \<open>time.Duration\<close> a signed 64-bit count
  of nanoseconds. \<open>time.Since(t)\<close> is \<open>time.Now().Sub(t)\<close>, which saturates at the
  largest and smallest duration. The clock is a parameter \<open>now\<close>: all readings taken
  during one call are the same instant.
\<close>

definition maxDuration :: int where
  "maxDuration = 2 ^ 63 - 1"

definition minDuration :: int where
  "minDuration = - (2 ^ 63)"

definition time_Since :: "int \<Rightarrow> int \<Rightarrow> int" where
  "time_Since now t = max minDuration (min maxDuration (now - t))"

section \<open>Node lists (util.go)\<close>

text \<open>
  Modelled from the spec: the node record is declared outside util.go. It has a state
  among Alive, Suspect, Dead and Left and the time of the last state change; further
  fields are left open by the record scheme. The slices hold pointers to node records;
  \<open>moveDeadNodes\<close> only reads the records, so its list holds the records themselves (no
  pointer is nil).
\<close>

datatype nodeStateType = StateAlive | StateSuspect | StateDead | StateLeft

record nodeState =
  State :: nodeStateType
  StateChange :: int

subsection \<open>moveDeadNodes\<close>





subsection \<open>randomOffset and kRandomNodes\<close>

text \<open>
  The random source is the sequence of values that successive calls of \<open>rand.Uint32()\<close>
  return; a call takes the first and leaves the rest. Nodes are compared as pointers, so
  the node list is a list of pointers of any type \<open>'p\<close>. A nil \<open>filterFn\<close> is \<open>None\<close>.
\<close>

type_synonym rng = "nat \<Rightarrow> 32 word"

definition rand_Uint32 :: "rng \<Rightarrow> 32 word \<times> rng" where
  "rand_Uint32 r = (r 0, \<lambda>i. r (Suc i))"

definition randomOffset :: "rng \<Rightarrow> nat \<Rightarrow> (panic + nat) \<times> rng" where
  \<comment> \<open>\<open>int(rand.Uint32() % uint32(n))\<close>: \<open>uint32(n)\<close> keeps the low 32 bits of \<open>n\<close>\<close>
  "randomOffset r n =
     (if n = 0 then (Inr 0, r)
      else
        let (v, r') = rand_Uint32 r in
        if (word_of_nat n :: 32 word) = 0 then (Inl IntegerDivideByZero, r')
        else (Inr (unat (v mod word_of_nat n)), r'))"

function kRandomLoop ::
  "int \<Rightarrow> 'p list \<Rightarrow> ('p \<Rightarrow> bool) option \<Rightarrow> rng \<Rightarrow> nat \<Rightarrow> 'p list \<Rightarrow> (panic + 'p list) \<times> rng" where
  \<comment> \<open>the loop labelled \<open>OUTER\<close>; \<open>continue OUTER\<close> goes on with \<open>i + 1\<close>\<close>
  "kRandomLoop k nodes filterFn r i kNodes =
     (if i < 3 * length nodes \<and> int (length kNodes) < k then
        (case randomOffset r (length nodes) of
           (Inl p, r') \<Rightarrow> (Inl p, r')
         | (Inr idx, r') \<Rightarrow>
             if idx < length nodes then
               let node = nodes ! idx in
               if (case filterFn of None \<Rightarrow> False | Some f \<Rightarrow> f node)
               then kRandomLoop k nodes filterFn r' (i + 1) kNodes
               else if node \<in> set kNodes
               then kRandomLoop k nodes filterFn r' (i + 1) kNodes
               else kRandomLoop k nodes filterFn r' (i + 1) (kNodes @ [node])
             else (Inl IndexOutOfRange, r'))
      else (Inr kNodes, r))"
  by pat_completeness auto
termination
  by (relation "measure (\<lambda>(k, nodes, filterFn, r, i, kNodes). 3 * length nodes - i)") auto

declare kRandomLoop.simps [simp del]

text \<open>
  \<open>make([]*nodeState, 0, k)\<close> panics (makeslice: cap out of range) when \<open>k\<close> is negative
  and when \<open>k\<close> pointers need more than the runtime's largest allocation. That limit
  depends on the platform (about \<open>2^45\<close> pointers on 64-bit ones); it is the parameter
  \<open>maxCap\<close>, the largest capacity a slice of pointers can have. A node slice that exists
  has at most \<open>maxCap\<close> elements.
\<close>

definition kRandomNodes ::
  "int \<Rightarrow> int \<Rightarrow> 'p list \<Rightarrow> ('p \<Rightarrow> bool) option \<Rightarrow> rng \<Rightarrow> (panic + 'p list) \<times> rng" where
  "kRandomNodes maxCap k nodes filterFn r =
     (if k < 0 \<or> maxCap < k then (Inl MakeCapOutOfRange, r)
      else kRandomLoop k nodes filterFn r 0 [])"

text \<open>
  The nodes that a sequence of draws selects, each node once, in the order in which the
  nodes are first selected.
\<close>

definition firstSelected :: "'p list \<Rightarrow> 'p list" where
  "firstSelected xs = rev (remdups (rev xs))"

definition addNew :: "'p list \<Rightarrow> 'p \<Rightarrow> 'p list" where
  \<comment> \<open>one step of selecting: a node already selected is skipped\<close>
  "addNew acc x = (if x \<in> set acc then acc else acc @ [x])"

definition drawnNodes :: "'p list \<Rightarrow> rng \<Rightarrow> nat \<Rightarrow> 'p list" where
  \<comment> \<open>the nodes selected by the first \<open>m\<close> draws of \<open>r\<close>\<close>
  "drawnNodes nodes r m = map (\<lambda>i. nodes ! (unat (r i) mod length nodes)) [0..<m]"

text \<open>The random source whose every draw is the same value.\<close>

definition constantSource :: "32 word \<Rightarrow> rng" where
  "constantSource v = (\<lambda>i. v)"

text \<open>The random source whose draws are 0, 1, 2, ...\<close>

definition countingSource :: rng where
  "countingSource = (\<lambda>i. word_of_nat i)"

section \<open>The suspicion timer\<close>

text \<open>
  The fields of the Go struct. \<open>n\<close> and \<open>k\<close> are \<open>int32\<close>. The timer is its pending
  deadline, or \<open>None\<close> once it has fired or was stopped. The callback \<open>timeoutFn\<close> calls
  \<open>fn\<close> with the current \<open>n\<close>; \<open>timeouts\<close> lists the arguments of these calls in order.
\<close>

record suspicion =
  n :: "32 word"
  k :: "32 word"
  min' :: int
  max' :: int
  start :: int
  timer :: "int option"
  confirmations :: "string set"
  timeouts :: "int list"

definition timeoutFn :: "suspicion \<Rightarrow> suspicion" where
  \<comment> \<open>\<open>fn(int(atomic.LoadInt32(&s.n)))\<close>\<close>
  "timeoutFn s = s\<lparr>timeouts := timeouts s @ [sint (n s)]\<rparr>"

definition newSuspicion :: "string \<Rightarrow> int \<Rightarrow> int \<Rightarrow> int \<Rightarrow> int \<Rightarrow> suspicion" where
  \<comment> \<open>the last argument is the clock; \<open>int32(k)\<close> keeps the low 32 bits of \<open>k\<close>\<close>
  "newSuspicion = (\<lambda>from k min max now.
     let s = \<lparr>n = 0, k = word_of_int k, min' = min, max' = max, start = 0, timer = None,
              confirmations = {}, timeouts = []\<rparr>;
         s = s\<lparr>confirmations := insert from (confirmations s)\<rparr>;
         timeout = max;
         timeout = (if k < 1 then min else timeout);
         s = s\<lparr>timer := Some (now + timeout)\<rparr>;
         s = s\<lparr>start := now\<rparr>
     in s)"

text \<open>
  \<open>remainingSuspicionTime\<close> computes in \<open>float64\<close>; \<open>Confirm\<close> takes it as a parameter
  \<open>rst\<close>. \<open>s.timer.Stop()\<close> reports whether the timer was still pending.
\<close>

definition Confirm ::
  "(32 word \<Rightarrow> 32 word \<Rightarrow> int \<Rightarrow> int \<Rightarrow> int \<Rightarrow> int) \<Rightarrow> suspicion \<Rightarrow> string \<Rightarrow> int \<Rightarrow> bool \<times> suspicion" where
  "Confirm rst s from now =
     (if sint (k s) \<le> sint (n s) then (False, s)
      else if from \<in> confirmations s then (False, s)
      else
        let s = s\<lparr>confirmations := insert from (confirmations s)\<rparr>;
            s = s\<lparr>n := n s + 1\<rparr>;
            elapsed = time_Since now (start s);
            remaining = rst (n s) (k s) elapsed (min' s) (max' s);
            stopped = (timer s \<noteq> None);
            s = s\<lparr>timer := None\<rparr>;
            s = (if stopped
                 then if 0 < remaining then s\<lparr>timer := Some (now + remaining)\<rparr>
                      else timeoutFn s
                 else s)
        in (True, s))"

text \<open>
  What happens to a timer between two calls: it is confirmed by a peer at some time, or
  its pending timer fires and runs the callback.
\<close>

datatype event = Confirms string int | TimerFires

definition timerFires :: "suspicion \<Rightarrow> suspicion" where
  "timerFires s = (case timer s of None \<Rightarrow> s | Some d \<Rightarrow> timeoutFn (s\<lparr>timer := None\<rparr>))"

fun step :: "(32 word \<Rightarrow> 32 word \<Rightarrow> int \<Rightarrow> int \<Rightarrow> int \<Rightarrow> int) \<Rightarrow> suspicion \<Rightarrow> event \<Rightarrow> suspicion" where
  "step rst s (Confirms from now) = snd (Confirm rst s from now)"
| "step rst s TimerFires = timerFires s"

text \<open>A remaining-time function for examples: the time left until \<open>max\<close>.\<close>

definition untilMax :: "32 word \<Rightarrow> 32 word \<Rightarrow> int \<Rightarrow> int \<Rightarrow> int \<Rightarrow> int" where
  "untilMax = (\<lambda>n k elapsed min max. max - elapsed)"

definition run :: "(32 word \<Rightarrow> 32 word \<Rightarrow> int \<Rightarrow> int \<Rightarrow> int \<Rightarrow> int) \<Rightarrow> suspicion \<Rightarrow> event list \<Rightarrow> suspicion" where
  "run rst s evs = foldl (step rst) s evs"

section \<open>Properties of the compound framing\<close>

subsection \<open>Auxiliary facts\<close>

lemma uint16_bytes_roundtrip:
  fixes v :: "16 word"
  shows "(ucast (ucast v :: byte) :: 16 word) OR push_bit 8 (ucast (ucast (drop_bit 8 v) :: byte)) = v"
  by (rule bit_word_eqI) (auto simp: bit_simps)

lemma length_PutUint16 [simp]: "length (bigEndian_PutUint16 v) = 2"
  by (simp add: bigEndian_PutUint16_def)

lemma length_table [simp]: "length (concat (map bigEndian_PutUint16 ws)) = 2 * length ws"
  by (induction ws) simp_all

lemma drop_table:
  "drop (2 * i) (concat (map bigEndian_PutUint16 ws)) = concat (map bigEndian_PutUint16 (drop i ws))"
proof (induction ws arbitrary: i)
  case Nil
  then show ?case by simp
next
  case (Cons w ws)
  show ?case
  proof (cases i)
    case 0
    then show ?thesis by simp
  next
    case (Suc j)
    then show ?thesis using Cons.IH [of j] by simp
  qed
qed

lemma Uint16_at_table:
  assumes "i < length ws"
    and "elems buf @ spare buf = concat (map bigEndian_PutUint16 ws) @ rest"
  shows "\<exists>b. reslice buf (i * 2) (i * 2 + 2) = Inr b \<and> bigEndian_Uint16 b = Inr (ws ! i)"
proof -
  have c: "i * 2 + 2 \<le> cap buf"
  proof -
    have "cap buf = length (elems buf @ spare buf)" by (simp add: cap_def)
    also have "\<dots> = 2 * length ws + length rest" using assms(2) by simp
    finally show ?thesis using assms(1) by simp
  qed
  have d: "drop i ws = ws ! i # drop (Suc i) ws"
    using assms(1) by (simp add: Cons_nth_drop_Suc)
  have "drop (i * 2) (elems buf @ spare buf)
        = concat (map bigEndian_PutUint16 (drop i ws)) @ rest"
    using assms drop_table [of i ws] by (simp add: mult.commute)
  then have "take 2 (drop (i * 2) (elems buf @ spare buf)) = bigEndian_PutUint16 (ws ! i)"
    using d by simp
  then show ?thesis
    using c by (simp add: reslice_def bigEndian_Uint16_def bigEndian_PutUint16_def uint16_bytes_roundtrip)
qed

lemma decodeLengths_table:
  assumes "elems buf @ spare buf = concat (map bigEndian_PutUint16 ws) @ rest"
    and "length ws = cnt" and "length ls = cnt" and "i \<le> cnt"
  shows "decodeLengths buf cnt i ls = Inr (take i ls @ drop i ws)"
  using assms
proof (induction buf cnt i ls rule: decodeLengths.induct)
  case (1 buf cnt i ls)
  show ?case
  proof (cases "i < cnt")
    case False
    with "1.prems" show ?thesis by (subst decodeLengths.simps) simp
  next
    case True
    then obtain b where b: "reslice buf (i * 2) (i * 2 + 2) = Inr b" "bigEndian_Uint16 b = Inr (ws ! i)"
      using Uint16_at_table [of i ws buf rest] "1.prems" by auto
    have il: "i < length ls" using True "1.prems" by simp
    have "decodeLengths buf cnt (i + 1) (ls[i := ws ! i]) = Inr (take (i + 1) (ls[i := ws ! i]) @ drop (i + 1) ws)"
      using "1.IH" [OF True b(1) b(2) il] "1.prems" True by simp
    moreover have "take (i + 1) (ls[i := ws ! i]) @ drop (i + 1) ws = take i ls @ drop i ws"
      using il True "1.prems" by (simp add: take_Suc_conv_app_nth Cons_nth_drop_Suc)
    ultimately show ?thesis using True b il by (subst decodeLengths.simps) simp
  qed
qed

lemma splitParts_bodies:
  assumes "\<forall>m \<in> set Ms. length m < 65536"
  shows "splitParts (map (\<lambda>m. word_of_nat (length m)) Ms @ rest) idx np
           \<lparr>elems = concat Ms @ tail, spare = sp\<rparr> ps
         = splitParts rest (idx + length Ms) np \<lparr>elems = tail, spare = sp\<rparr> (ps @ Ms)"
  using assms
proof (induction Ms arbitrary: idx ps)
  case Nil
  then show ?case by simp
next
  case (Cons m Ms)
  have u: "unat (word_of_nat (length m) :: 16 word) = length m"
    using Cons.prems by (simp add: unat_of_nat)
  have "splitParts (map (\<lambda>m. word_of_nat (length m)) (m # Ms) @ rest) idx np
           \<lparr>elems = concat (m # Ms) @ tail, spare = sp\<rparr> ps
        = splitParts (map (\<lambda>m. word_of_nat (length m)) Ms @ rest) (idx + 1) np
           \<lparr>elems = concat Ms @ tail, spare = sp\<rparr> (ps @ [m])"
    by (simp add: u len_def cap_def slice_to_def slice_from_def reslice_def)
  also have "\<dots> = splitParts rest (idx + 1 + length Ms) np \<lparr>elems = tail, spare = sp\<rparr> ((ps @ [m]) @ Ms)"
    using Cons.IH [of "idx + 1" "ps @ [m]"] Cons.prems by simp
  finally show ?case by simp
qed


lemma writeLengths_eq:
  "writeLengths buf msgs = buf @ concat (map (\<lambda>m. bigEndian_PutUint16 (word_of_nat (length m))) msgs)"
  unfolding writeLengths_def by (induction msgs arbitrary: buf) simp_all

lemma writeBodies_eq: "writeBodies buf msgs = buf @ concat msgs"
  unfolding writeBodies_def by (induction msgs arbitrary: buf) simp_all

lemma makeCompoundMessage_eq:
  "makeCompoundMessage t msgs =
     t # word_of_nat (length msgs) # concat (map (\<lambda>m. bigEndian_PutUint16 (word_of_nat (length m))) msgs) @ concat msgs"
  by (simp add: makeCompoundMessage_def writeLengths_eq writeBodies_eq)

lemma slice_from_table:
  "slice_from \<lparr>elems = concat (map bigEndian_PutUint16 ws) @ bs, spare = sp\<rparr> (2 * length ws)
   = Inr \<lparr>elems = bs, spare = sp\<rparr>"
  by (simp add: slice_from_def reslice_def len_def cap_def)

lemma decode_frame:
  assumes cnt: "length L \<le> 127" and sz: "\<forall>m \<in> set L. length m < 65536" and kept: "kept \<le> length L"
  shows "decodeCompoundMessage
           \<lparr>elems = word_of_nat (length L)
                     # concat (map (\<lambda>m. bigEndian_PutUint16 (word_of_nat (length m))) L)
                     @ concat (take kept L),
            spare = sp\<rparr>
         = splitParts (map (\<lambda>m. word_of_nat (length m)) (drop kept L)) kept (word_of_nat (length L))
             \<lparr>elems = [], spare = sp\<rparr> (take kept L)"
proof -
  define ws :: "16 word list" where "ws = map (\<lambda>m. word_of_nat (length m)) L"
  define np :: byte where "np = word_of_nat (length L)"
  define buf1 where "buf1 = \<lparr>elems = concat (map bigEndian_PutUint16 ws) @ concat (take kept L), spare = sp\<rparr>"
  have tab: "concat (map (\<lambda>m. bigEndian_PutUint16 (word_of_nat (length m))) L)
             = concat (map bigEndian_PutUint16 ws)"
    by (simp add: ws_def comp_def)
  have lws: "length ws = length L" by (simp add: ws_def)
  have unp: "unat np = length L" using cnt by (simp add: np_def unat_of_nat)
  have unp2: "unat (np * 2) = 2 * length L"
    using cnt unp by (simp add: unat_word_ariths)
  have s1: "slice_from \<lparr>elems = np # concat (map bigEndian_PutUint16 ws) @ concat (take kept L), spare = sp\<rparr> (Suc 0)
            = Inr buf1"
    by (simp add: buf1_def slice_from_def reslice_def len_def cap_def)
  have l1: "\<not> len buf1 < 2 * length L" by (simp add: buf1_def len_def lws)
  have dl: "decodeLengths buf1 (length L) 0 (replicate (length L) 0) = Inr ws"
    using decodeLengths_table [of buf1 ws "concat (take kept L) @ sp" "length L" "replicate (length L) 0" 0]
    by (simp add: buf1_def lws)
  have s2: "slice_from buf1 (2 * length L) = Inr \<lparr>elems = concat (take kept L), spare = sp\<rparr>"
    using slice_from_table [of ws "concat (take kept L)" sp] by (simp add: buf1_def lws)
  have wsplit: "ws = map (\<lambda>m. word_of_nat (length m)) (take kept L) @ map (\<lambda>m. word_of_nat (length m)) (drop kept L)"
    unfolding ws_def by (simp flip: map_append)
  have szk: "\<forall>m \<in> set (take kept L). length m < 65536"
    using sz by (meson in_set_takeD)
  have sp: "splitParts ws 0 np \<lparr>elems = concat (take kept L), spare = sp\<rparr> []
            = splitParts (map (\<lambda>m. word_of_nat (length m)) (drop kept L)) kept np \<lparr>elems = [], spare = sp\<rparr> (take kept L)"
    using splitParts_bodies [OF szk, of "map (\<lambda>m. word_of_nat (length m)) (drop kept L)" 0 np "[]" sp "[]"] kept
    by (simp add: wsplit min_def)
  show ?thesis
    unfolding tab np_def [symmetric]
    by (simp add: decodeCompoundMessage_def len_def s1 [unfolded len_def] unp unp2 l1 [unfolded len_def] dl s2 sp)
qed

subsection \<open>The header checks of decodeCompoundMessage\<close>

text \<open>
  On an empty buffer, and on a count byte of at most 127 with fewer than \<open>2 * count\<close>
  bytes after it, the two header errors are returned.
\<close>

lemma decodeCompoundMessage_missing_length_byte:
  "elems buf = [] \<Longrightarrow>
   decodeCompoundMessage buf = Inr \<lparr>trunc = 0, parts = [], err = Some ''missing compound length byte''\<rparr>"
  by (simp add: decodeCompoundMessage_def len_def)

lemma decodeCompoundMessage_truncated_len_slice:
  assumes "elems buf = c # rest" and "unat c \<le> 127" and "length rest < 2 * unat c"
  shows "decodeCompoundMessage buf = Inr \<lparr>trunc = 0, parts = [], err = Some ''truncated len slice''\<rparr>"
proof -
  have "unat (c * 2) = 2 * unat c"
    using assms(2) by (simp add: unat_word_ariths)
  then show ?thesis
    using assms by (simp add: decodeCompoundMessage_def len_def cap_def slice_from_def reslice_def)
qed

text \<open>
  Claim C1. The header checks are claimed for every count byte 0..255. The count is a
  \<open>uint8\<close> and the check compares \<open>len(buf)\<close> with \<open>int(numParts*2)\<close>, a product taken
  in \<open>uint8\<close>: at count 128 it is 0. On the one-byte buffer \<open>[128]\<close> (length and
  capacity 1) no byte follows the count, the check passes, and the first read of the
  length table, \<open>buf[0:2]\<close>, is out of range: the call panics instead of returning the
  "truncated len slice" error.
\<close>

theorem decodeCompoundMessage_count_128_panics:
  "decodeCompoundMessage \<lparr>elems = [128], spare = []\<rparr> = Inl SliceBoundsOutOfRange"
  by (simp add: decodeCompoundMessage_def len_def cap_def slice_from_def reslice_def
      decodeLengths.simps)

lemma concat_replicate_pair: "concat (replicate m [x, x]) = replicate (2 * m) x"
  by (induction m) simp_all

text \<open>
  When the one-byte buffer is the head of a larger backing array, the same call reads the
  length table from the 256 bytes past the end of the buffer and returns 128 empty parts
  with no error.
\<close>

lemma decodeCompoundMessage_count_128_reads_spare:
  "decodeCompoundMessage \<lparr>elems = [128], spare = replicate 256 0\<rparr>
   = Inr \<lparr>trunc = 0, parts = replicate 128 [], err = None\<rparr>"
proof -
  define buf1 where "buf1 = \<lparr>elems = [], spare = replicate 256 (0 :: byte)\<rparr>"
  have z: "bigEndian_PutUint16 0 = [0, 0]" by (simp add: bigEndian_PutUint16_def)
  have "concat (map bigEndian_PutUint16 (replicate 128 0)) = concat (replicate 128 [0, 0])"
    by (simp add: z)
  also have "\<dots> = replicate (2 * 128) 0"
    by (rule concat_replicate_pair)
  finally have tab: "concat (map bigEndian_PutUint16 (replicate 128 0)) = replicate 256 0"
    by simp
  have s1: "slice_from \<lparr>elems = [128], spare = replicate 256 0\<rparr> (Suc 0) = Inr buf1"
    by (simp add: buf1_def slice_from_def reslice_def len_def cap_def)
  have dl: "decodeLengths buf1 128 0 (replicate 128 0) = Inr (replicate 128 0)"
  proof -
    have "elems buf1 @ spare buf1 = concat (map bigEndian_PutUint16 (replicate 128 0)) @ []"
      unfolding tab by (simp add: buf1_def)
    then have "decodeLengths buf1 128 0 (replicate 128 0)
               = Inr (take 0 (replicate 128 0) @ drop 0 (replicate 128 0))"
      by (rule decodeLengths_table) simp_all
    then show ?thesis by simp
  qed
  have s2: "slice_from buf1 0 = Inr buf1"
    by (simp add: buf1_def slice_from_def reslice_def len_def cap_def)
  have sp: "splitParts (replicate 128 0) 0 128 buf1 []
            = Inr \<lparr>trunc = 0, parts = replicate 128 [], err = None\<rparr>"
    using splitParts_bodies [where Ms = "replicate 128 []" and rest = "[]" and idx = 0
        and np = 128 and tail = "[]" and sp = "replicate 256 0" and ps = "[]"]
    by (simp add: buf1_def)
  show ?thesis
    by (simp add: decodeCompoundMessage_def len_def s1 dl s2 sp)
qed

subsection \<open>A frame of 128 messages\<close>

lemma length_concat_replicate: "length (concat (replicate cnt xs)) = cnt * length xs"
  by (induction cnt) simp_all

lemma singletons_lengths:
  "map (\<lambda>m. word_of_nat (length m)) (map (\<lambda>b. [b]) bs) = replicate (length bs) (1 :: 16 word)"
  by (induction bs) simp_all

lemma concat_singletons: "concat (map (\<lambda>b. [b]) bs) = bs"
  by (induction bs) simp_all

lemma decode_count_128:
  assumes ws: "length ws = 128"
    and ones: "ws = replicate 128 1"
  shows "decodeCompoundMessage
           \<lparr>elems = 128 # concat (map bigEndian_PutUint16 ws) @ rest, spare = sp\<rparr>
         = Inr \<lparr>trunc = 0, parts = map (\<lambda>b. [b]) (take 128 (concat (map bigEndian_PutUint16 ws) @ rest)), err = None\<rparr>"
proof -
  define buf1 where "buf1 = \<lparr>elems = concat (map bigEndian_PutUint16 ws) @ rest, spare = sp\<rparr>"
  define B where "B = take 128 (elems buf1)"
  have lB: "length B = 128" by (simp add: B_def buf1_def ws)
  have s1: "slice_from \<lparr>elems = 128 # concat (map bigEndian_PutUint16 ws) @ rest, spare = sp\<rparr> (Suc 0)
            = Inr buf1"
    by (simp add: buf1_def slice_from_def reslice_def len_def cap_def)
  have dl: "decodeLengths buf1 128 0 (replicate 128 0) = Inr ws"
    using decodeLengths_table [of buf1 ws "rest @ sp" 128 "replicate 128 0" 0]
    by (simp add: buf1_def ws)
  have s2: "slice_from buf1 0 = Inr buf1"
    by (simp add: buf1_def slice_from_def reslice_def len_def cap_def)
  have e: "buf1 = \<lparr>elems = concat (map (\<lambda>b. [b]) B) @ drop 128 (elems buf1), spare = sp\<rparr>"
    by (simp add: concat_singletons B_def) (simp add: buf1_def)
  have w: "ws = map (\<lambda>m. word_of_nat (length m)) (map (\<lambda>b. [b]) B) @ []"
    by (simp only: singletons_lengths lB ones append_Nil2)
  have "splitParts ws 0 128 buf1 [] = splitParts [] (0 + length (map (\<lambda>b. [b]) B)) 128
          \<lparr>elems = drop 128 (elems buf1), spare = sp\<rparr> ([] @ map (\<lambda>b. [b]) B)"
    by (subst w, subst e, rule splitParts_bodies) simp
  then have sp: "splitParts ws 0 128 buf1 [] = Inr \<lparr>trunc = 0, parts = map (\<lambda>b. [b]) B, err = None\<rparr>"
    by simp
  show ?thesis
    by (simp add: decodeCompoundMessage_def len_def s1 dl s2 sp)
       (simp add: B_def buf1_def)
qed


lemma table_of_ones:
  "concat (map bigEndian_PutUint16 (replicate 128 1)) = concat (replicate 64 [0, 1]) @ concat (replicate 64 [0, 1])"
proof -
  have "bigEndian_PutUint16 1 = [0, 1]"
    by (simp add: bigEndian_PutUint16_def)
  then have "concat (map bigEndian_PutUint16 (replicate 128 1)) = concat (replicate (64 + 64) [0, 1])"
    by simp
  also have "\<dots> = concat (replicate 64 [0, 1]) @ concat (replicate 64 [0, 1])"
    by (simp only: replicate_add concat_append)
  finally show ?thesis .
qed

text \<open>
  Claim C2. The round trip is claimed for every list of at most 255 messages. For 128
  messages of the one byte 65 the decoder takes \<open>numParts*2 = 0\<close> in \<open>uint8\<close>, does not
  skip the length table, and cuts the parts out of the table itself: it returns, with no
  error and no truncation, 128 parts that alternate \<open>[0]\<close> and \<open>[1]\<close>, which are not the
  messages that were packed.
\<close>

theorem makeCompoundMessage_128_messages_not_recovered:
  "decodeCompoundMessage \<lparr>elems = tl (makeCompoundMessage t (replicate 128 [65])), spare = sp\<rparr>
     = Inr \<lparr>trunc = 0, parts = map (\<lambda>b. [b]) (concat (replicate 64 [0, 1])), err = None\<rparr>
   \<and> map (\<lambda>b. [b]) (concat (replicate 64 [0, 1])) \<noteq> replicate 128 [65 :: byte]"
proof
  have fr: "tl (makeCompoundMessage t (replicate 128 [65]))
            = 128 # concat (map bigEndian_PutUint16 (replicate 128 1)) @ concat (replicate 128 [65])"
    by (simp add: makeCompoundMessage_eq)
  have tk: "take 128 (concat (map bigEndian_PutUint16 (replicate 128 1)) @ concat (replicate 128 [65 :: byte]))
            = concat (replicate 64 [0, 1])"
    by (simp only: table_of_ones) (simp add: length_concat_replicate)
  show "decodeCompoundMessage \<lparr>elems = tl (makeCompoundMessage t (replicate 128 [65])), spare = sp\<rparr>
     = Inr \<lparr>trunc = 0, parts = map (\<lambda>b. [b]) (concat (replicate 64 [0, 1])), err = None\<rparr>"
    unfolding fr
    by (subst decode_count_128) (simp_all only: tk length_replicate)
  have n64: "(64::nat) = Suc 63" and n128: "(128::nat) = Suc 127"
    by simp_all
  show "map (\<lambda>b. [b]) (concat (replicate 64 [0, 1])) \<noteq> replicate 128 [65 :: byte]"
  proof
    assume "map (\<lambda>b. [b]) (concat (replicate 64 [0, 1])) = replicate 128 [65 :: byte]"
    then have "hd (map (\<lambda>b. [b]) (concat (replicate 64 [0, 1]))) = hd (replicate 128 [65 :: byte])"
      by simp
    then have "[0 :: byte] = [65]"
      unfolding n64 n128
      by (simp only: replicate_Suc concat.simps append_Cons list.map list.sel)
    then show False by simp
  qed
qed

subsection \<open>Round trip and truncation for at most 127 messages\<close>

text \<open>
  Up to 127 messages \<open>numParts*2\<close> does not overflow, and the frame is decoded to the list
  that was packed, whatever lies in the spare capacity behind the buffer.
\<close>

lemma decode_make_upto_127:
  assumes "length L \<le> 127" and "\<forall>m \<in> set L. length m \<le> 65535"
  shows "decodeCompoundMessage \<lparr>elems = tl (makeCompoundMessage t L), spare = sp\<rparr>
         = Inr \<lparr>trunc = 0, parts = L, err = None\<rparr>"
proof -
  have sz: "\<forall>m \<in> set L. length m < 65536" using assms(2) by auto
  show ?thesis
    using decode_frame [OF assms(1) sz, of "length L" sp]
    by (simp add: makeCompoundMessage_eq)
qed

lemma removeTailBodies_make:
  assumes "j \<le> length L"
  shows "tl (removeTailBodies (makeCompoundMessage t L) L j)
         = word_of_nat (length L)
           # concat (map (\<lambda>m. bigEndian_PutUint16 (word_of_nat (length m))) L)
           @ concat (take (length L - j) L)"
proof -
  define hdr where "hdr = t # word_of_nat (length L)
           # concat (map (\<lambda>m. bigEndian_PutUint16 (word_of_nat (length m))) L)"
  have "concat L = concat (take (length L - j) L) @ concat (drop (length L - j) L)"
    by (metis append_take_drop_id concat_append)
  then have "makeCompoundMessage t L
             = (hdr @ concat (take (length L - j) L)) @ concat (drop (length L - j) L)"
    by (simp add: makeCompoundMessage_eq hdr_def)
  then have "removeTailBodies (makeCompoundMessage t L) L j = hdr @ concat (take (length L - j) L)"
    unfolding removeTailBodies_def by (simp only: length_append add_diff_cancel_right' append_eq_conv_conj) simp
  then show ?thesis by (simp add: hdr_def)
qed

text \<open>
  Claim C3, as stated, fails: the frame of \<open>[[1], []]\<close> without its last body is the whole
  frame, since the last body is empty, and it decodes to both messages with no truncation.
\<close>

theorem decodeCompoundMessage_empty_tail_counterexample:
  "decodeCompoundMessage
     \<lparr>elems = tl (removeTailBodies (makeCompoundMessage 7 [[1], []]) [[1], []] 1), spare = []\<rparr>
   = Inr \<lparr>trunc = 0, parts = [[1], []], err = None\<rparr>
   \<and> decodeCompoundMessage
     \<lparr>elems = tl (removeTailBodies (makeCompoundMessage 7 [[1], []]) [[1], []] 1), spare = []\<rparr>
   \<noteq> Inr \<lparr>trunc = 1, parts = take (length [[1], [] :: byte list] - 1) [[1], []], err = None\<rparr>"
proof -
  have "length [[1], [] :: byte list] \<le> 127" by simp
  moreover have "\<forall>m \<in> set [[1], [] :: byte list]. length m \<le> 65535" by simp
  ultimately have "decodeCompoundMessage \<lparr>elems = tl (makeCompoundMessage 7 [[1], []]), spare = []\<rparr>
         = Inr \<lparr>trunc = 0, parts = [[1], []], err = None\<rparr>"
    by (rule decode_make_upto_127)
  moreover have "removeTailBodies (makeCompoundMessage 7 [[1], []]) [[1], []] 1 = makeCompoundMessage 7 [[1], []]"
    by (simp add: removeTailBodies_def)
  ultimately show ?thesis by simp
qed

text \<open>
  Claim C3, amended. For a list \<open>L\<close> of at most 127 messages, each of at most 65535 bytes,
  and \<open>1 \<le> j \<le> length L\<close>: when the first removed message, \<open>L ! (length L - j)\<close>, is not
  empty, the frame without its last \<open>j\<close> bodies decodes to truncation count \<open>j\<close>, the first
  \<open>length L - j\<close> messages in order, and no error. An empty message needs no byte of the
  buffer, so the decoder cannot see that it was cut off.
\<close>

theorem decodeCompoundMessage_truncated_tail:
  assumes "length L \<le> 127" and "\<forall>m \<in> set L. length m \<le> 65535"
    and "1 \<le> j" and "j \<le> length L" and "L ! (length L - j) \<noteq> []"
  shows "decodeCompoundMessage
           \<lparr>elems = tl (removeTailBodies (makeCompoundMessage t L) L j), spare = sp\<rparr>
         = Inr \<lparr>trunc = int j, parts = take (length L - j) L, err = None\<rparr>"
proof -
  define kept where "kept = length L - j"
  have kept: "kept < length L" "kept \<le> length L" using assms(3,4) by (simp_all add: kept_def)
  have sz: "\<forall>m \<in> set L. length m < 65536" using assms(2) by auto
  have d: "drop kept L = L ! kept # drop (Suc kept) L"
    using kept by (simp add: Cons_nth_drop_Suc)
  have "length (L ! kept) < 65536" using sz kept by simp
  then have u: "unat (word_of_nat (length (L ! kept)) :: 16 word) = length (L ! kept)"
    by (simp add: unat_of_nat)
  have pos: "L ! kept \<noteq> []" using assms(5) by (simp add: kept_def)
  have np: "unat (word_of_nat (length L) :: byte) = length L"
    using assms(1) by (simp add: unat_of_nat)
  have "decodeCompoundMessage
           \<lparr>elems = tl (removeTailBodies (makeCompoundMessage t L) L j), spare = sp\<rparr>
        = splitParts (map (\<lambda>m. word_of_nat (length m)) (drop kept L)) kept (word_of_nat (length L))
             \<lparr>elems = [], spare = sp\<rparr> (take kept L)"
    using decode_frame [OF assms(1) sz kept(2), of sp] removeTailBodies_make [OF assms(4), of t]
    by (simp add: kept_def)
  also have "\<dots> = Inr \<lparr>trunc = int (length L) - int kept, parts = take kept L, err = None\<rparr>"
    by (simp add: d u pos np len_def)
  finally show ?thesis using assms(4) by (simp add: kept_def)
qed

theorem decodeCompoundMessage_truncated_tail_witness:
  "length [[1], [2 :: byte]] \<le> 127 \<and> length [1 :: byte] \<le> 65535 \<and> length [2 :: byte] \<le> 65535
   \<and> (1::nat) \<le> 1 \<and> 1 \<le> length [[1], [2 :: byte]]
   \<and> [[1], [2 :: byte]] ! (length [[1], [2 :: byte]] - 1) \<noteq> []
   \<and> decodeCompoundMessage
           \<lparr>elems = tl (removeTailBodies (makeCompoundMessage 7 [[1], [2]]) [[1], [2]] 1), spare = []\<rparr>
         = Inr \<lparr>trunc = 1, parts = [[1]], err = None\<rparr>"
  using decodeCompoundMessage_truncated_tail [of "[[1], [2]]" 1 7 "[]"]
  by simp

subsection \<open>The frame written by makeCompoundMessage\<close>

lemma unat_PutUint16:
  "unat (bigEndian_PutUint16 v ! 0) * 256 + unat (bigEndian_PutUint16 v ! 1) = unat v"
proof -
  have "unat v < 65536" using unsigned_less [of v] by simp
  then have "unat v div 256 < 256" by simp
  then have hi: "unat (ucast (drop_bit 8 v) :: byte) = unat v div 256"
    by (simp add: unsigned_ucast_eq unat_drop_bit_eq take_bit_eq_mod drop_bit_eq_div unat_div_distrib)
  have lo: "unat (ucast v :: byte) = unat v mod 256"
    by (simp add: unsigned_ucast_eq take_bit_eq_mod)
  have "unat (bigEndian_PutUint16 v ! 0) = unat v div 256"
    unfolding bigEndian_PutUint16_def by (simp only: nth_Cons_0 hi)
  moreover have "unat (bigEndian_PutUint16 v ! 1) = unat v mod 256"
    unfolding bigEndian_PutUint16_def by (simp only: One_nat_def nth_Cons_Suc nth_Cons_0 lo)
  ultimately show ?thesis by simp
qed

lemma table_nth:
  assumes "i < length ws"
  shows "(concat (map bigEndian_PutUint16 ws) @ rest) ! (2 * i) = bigEndian_PutUint16 (ws ! i) ! 0"
    and "(concat (map bigEndian_PutUint16 ws) @ rest) ! (2 * i + 1) = bigEndian_PutUint16 (ws ! i) ! 1"
proof -
  define X where "X = concat (map bigEndian_PutUint16 ws) @ rest"
  have d: "drop (2 * i) X
           = bigEndian_PutUint16 (ws ! i) @ concat (map bigEndian_PutUint16 (drop (Suc i) ws)) @ rest"
    using assms drop_table [of i ws] by (simp add: X_def Cons_nth_drop_Suc [symmetric])
  have l: "2 * i \<le> length X"
    using assms by (simp add: X_def)
  have "X ! (2 * i + 0) = bigEndian_PutUint16 (ws ! i) ! 0"
    unfolding nth_drop [OF l, symmetric] d by (simp add: nth_append)
  then show "(concat (map bigEndian_PutUint16 ws) @ rest) ! (2 * i) = bigEndian_PutUint16 (ws ! i) ! 0"
    unfolding X_def by (simp only: add_0_right)
  have "X ! (2 * i + 1) = bigEndian_PutUint16 (ws ! i) ! 1"
    unfolding nth_drop [OF l, symmetric] d by (simp add: nth_append)
  then show "(concat (map bigEndian_PutUint16 ws) @ rest) ! (2 * i + 1) = bigEndian_PutUint16 (ws ! i) ! 1"
    unfolding X_def .
qed

lemma makeCompoundMessage_table:
  "makeCompoundMessage t msgs =
     t # word_of_nat (length msgs)
       # concat (map bigEndian_PutUint16 (map (\<lambda>m. word_of_nat (length m)) msgs)) @ concat msgs"
  by (simp add: makeCompoundMessage_eq comp_def)

lemma makeCompoundMessage_entry:
  assumes "i < length msgs"
  shows "unat (makeCompoundMessage t msgs ! (2 + 2 * i)) * 256
         + unat (makeCompoundMessage t msgs ! (2 + 2 * i + 1)) = length (msgs ! i) mod 65536"
proof -
  define ws :: "16 word list" where "ws = map (\<lambda>m. word_of_nat (length m)) msgs"
  have f: "makeCompoundMessage t msgs = t # word_of_nat (length msgs) # concat (map bigEndian_PutUint16 ws) @ concat msgs"
    by (simp add: makeCompoundMessage_eq ws_def comp_def)
  have i: "i < length ws" using assms by (simp add: ws_def)
  have "makeCompoundMessage t msgs ! (2 + 2 * i) = bigEndian_PutUint16 (ws ! i) ! 0"
    using table_nth(1) [OF i, of "concat msgs"] by (simp add: f)
  moreover have "makeCompoundMessage t msgs ! (2 + 2 * i + 1) = bigEndian_PutUint16 (ws ! i) ! 1"
    using table_nth(2) [OF i, of "concat msgs"] by (simp add: f)
  moreover have "unat (ws ! i) = length (msgs ! i) mod 65536"
    using assms by (simp add: ws_def unat_of_nat)
  ultimately show ?thesis
    using unat_PutUint16 [of "ws ! i"] by simp
qed

text \<open>
  Claim C10. \<open>makeCompoundMessage\<close> has no error path: for every list it returns a frame
  whose first byte is the tag, whose count byte is \<open>length msgs mod 256\<close>, whose \<open>i\<close>-th
  table entry (big-endian) is \<open>length (msgs ! i) mod 65536\<close>, followed by all the bodies.
  A list of more than 255 messages, or a message of more than 65535 bytes, is not
  rejected: the count byte, or the table entry, then differs from the real length.
\<close>

theorem makeCompoundMessage_wraps:
  "makeCompoundMessage t msgs ! 0 = t
   \<and> unat (makeCompoundMessage t msgs ! 1) = length msgs mod 256
   \<and> (\<forall>i < length msgs.
         unat (makeCompoundMessage t msgs ! (2 + 2 * i)) * 256
         + unat (makeCompoundMessage t msgs ! (2 + 2 * i + 1)) = length (msgs ! i) mod 65536)
   \<and> drop (2 + 2 * length msgs) (makeCompoundMessage t msgs) = concat msgs
   \<and> (255 < length msgs \<longrightarrow> unat (makeCompoundMessage t msgs ! 1) \<noteq> length msgs)
   \<and> (\<forall>i < length msgs. 65535 < length (msgs ! i) \<longrightarrow>
         unat (makeCompoundMessage t msgs ! (2 + 2 * i)) * 256
         + unat (makeCompoundMessage t msgs ! (2 + 2 * i + 1)) \<noteq> length (msgs ! i))"
proof (intro conjI allI impI)
  show "makeCompoundMessage t msgs ! 0 = t"
    by (simp add: makeCompoundMessage_eq)
  show c: "unat (makeCompoundMessage t msgs ! 1) = length msgs mod 256"
    by (simp add: makeCompoundMessage_eq unat_of_nat)
  show "drop (2 + 2 * length msgs) (makeCompoundMessage t msgs) = concat msgs"
  proof -
    define ws :: "16 word list" where "ws = map (\<lambda>m. word_of_nat (length m)) msgs"
    have "makeCompoundMessage t msgs
          = t # word_of_nat (length msgs) # concat (map bigEndian_PutUint16 ws) @ concat msgs"
      unfolding ws_def by (rule makeCompoundMessage_table)
    moreover have "length ws = length msgs" by (simp add: ws_def)
    ultimately show ?thesis by simp
  qed
  show "unat (makeCompoundMessage t msgs ! 1) \<noteq> length msgs" if "255 < length msgs"
  proof -
    have "length msgs mod 256 < 256" by simp
    then show ?thesis using that c by linarith
  qed
next
  fix i assume "i < length msgs"
  then show "unat (makeCompoundMessage t msgs ! (2 + 2 * i)) * 256
         + unat (makeCompoundMessage t msgs ! (2 + 2 * i + 1)) = length (msgs ! i) mod 65536"
    by (rule makeCompoundMessage_entry)
next
  fix i assume i: "i < length msgs" and big: "65535 < length (msgs ! i)"
  have "length (msgs ! i) mod 65536 < 65536" by simp
  then show "unat (makeCompoundMessage t msgs ! (2 + 2 * i)) * 256
         + unat (makeCompoundMessage t msgs ! (2 + 2 * i + 1)) \<noteq> length (msgs ! i)"
    using makeCompoundMessage_entry [OF i, of t] big by linarith
qed

theorem makeCompoundMessage_wraps_witness:
  "(0::nat) < length [[1, 2], [3 :: byte]]
   \<and> unat (makeCompoundMessage 7 [[1, 2], [3]] ! (2 + 2 * 0)) * 256
       + unat (makeCompoundMessage 7 [[1, 2], [3]] ! (2 + 2 * 0 + 1)) = 2
   \<and> 255 < length (replicate 256 ([] :: byte list))
   \<and> unat (makeCompoundMessage 7 (replicate 256 []) ! 1) = 0
   \<and> unat (makeCompoundMessage 7 (replicate 256 []) ! 1) \<noteq> length (replicate 256 ([] :: byte list))"
proof -
  have a: "\<forall>i < length [[1, 2], [3 :: byte]].
         unat (makeCompoundMessage 7 [[1, 2], [3]] ! (2 + 2 * i)) * 256
         + unat (makeCompoundMessage 7 [[1, 2], [3]] ! (2 + 2 * i + 1)) = length ([[1, 2], [3 :: byte]] ! i) mod 65536"
    using makeCompoundMessage_wraps [of 7 "[[1, 2], [3]]"] by blast
  have "(0::nat) < length [[1, 2], [3 :: byte]]" by simp
  with a have "unat (makeCompoundMessage 7 [[1, 2], [3]] ! (2 + 2 * 0)) * 256
         + unat (makeCompoundMessage 7 [[1, 2], [3]] ! (2 + 2 * 0 + 1)) = length ([[1, 2], [3 :: byte]] ! 0) mod 65536"
    by blast
  moreover have "unat (makeCompoundMessage 7 (replicate 256 []) ! 1) = length (replicate 256 ([] :: byte list)) mod 256"
    using makeCompoundMessage_wraps [of 7 "replicate 256 []"] by blast
  ultimately show ?thesis by simp
qed

section \<open>Properties of moveDeadNodes\<close>











section \<open>Properties of kRandomNodes\<close>

lemma randomOffset_in_range:
  assumes "0 < cnt" and "cnt < 2 ^ 32"
  shows "randomOffset r cnt = (Inr (unat (r 0) mod cnt), \<lambda>i. r (Suc i))"
proof -
  have u: "unat (word_of_nat cnt :: 32 word) = cnt"
    using assms(2) by (simp add: unat_of_nat)
  then have nz: "(word_of_nat cnt :: 32 word) \<noteq> 0"
    using assms(1) by (metis less_numeral_extra(3) unsigned_0)
  have "unat (r 0 mod word_of_nat cnt) = unat (r 0) mod cnt"
    by (simp add: unat_mod_distrib u)
  then show ?thesis
    using assms(1) nz by (simp add: randomOffset_def rand_Uint32_def)
qed

lemma addNew_old: "x \<in> set acc \<Longrightarrow> addNew acc x = acc"
  and addNew_new: "x \<notin> set acc \<Longrightarrow> addNew acc x = acc @ [x]"
  by (simp_all add: addNew_def)

lemma set_addNew: "set (addNew acc x) = insert x (set acc)"
  by (cases "x \<in> set acc") (auto simp: addNew_old addNew_new)

lemma set_foldl_addNew: "set (foldl addNew acc xs) = set acc \<union> set xs"
  by (induction xs arbitrary: acc) (simp_all add: set_addNew)

lemma firstSelected_foldl: "firstSelected xs = foldl addNew [] xs"
proof (induction xs rule: rev_induct)
  case Nil
  show ?case by (simp add: firstSelected_def)
next
  case (snoc x xs)
  have f: "firstSelected (xs @ [x]) = (if x \<in> set xs then firstSelected xs else firstSelected xs @ [x])"
    by (simp add: firstSelected_def)
  have s: "set (foldl addNew [] xs) = set xs" by (simp add: set_foldl_addNew)
  have "foldl addNew [] (xs @ [x]) = addNew (foldl addNew [] xs) x" by simp
  also have "\<dots> = (if x \<in> set xs then foldl addNew [] xs else foldl addNew [] xs @ [x])"
    using s by (simp add: addNew_old addNew_new)
  finally show ?case using f snoc by simp
qed

lemma foldl_addNew_prefix: "\<exists>zs. foldl addNew acc xs = acc @ zs"
proof (induction xs arbitrary: acc)
  case Nil
  show ?case by simp
next
  case (Cons x xs)
  obtain zs where z: "foldl addNew (addNew acc x) xs = addNew acc x @ zs"
    using Cons [of "addNew acc x"] by blast
  show ?case
  proof (cases "x \<in> set acc")
    case True
    then show ?thesis using z by (simp add: addNew_old)
  next
    case False
    then show ?thesis using z by (simp add: addNew_new)
  qed
qed

lemma take_foldl_addNew_full:
  assumes "length acc = m"
  shows "take m (foldl addNew acc xs) = acc"
proof -
  obtain zs where "foldl addNew acc xs = acc @ zs" using foldl_addNew_prefix by blast
  then show ?thesis using assms by simp
qed

lemma drawnNodes_Suc:
  "drawnNodes nodes r (Suc m) = nodes ! (unat (r 0) mod length nodes) # drawnNodes nodes (\<lambda>i. r (Suc i)) m"
proof -
  have "[0..<Suc m] = 0 # map Suc [0..<m]"
    by (simp add: upt_conv_Cons map_Suc_upt del: upt_Suc)
  then show ?thesis
    unfolding drawnNodes_def by (simp add: comp_def del: upt_Suc)
qed


lemma kRandomLoop_exact:
  assumes "int (length acc) \<le> kk" and "length nodes < 2 ^ 32" and "i \<le> 3 * length nodes"
  shows "\<exists>m. kRandomLoop kk nodes None r i acc
             = (Inr (take (nat kk) (foldl addNew acc (drawnNodes nodes r (3 * length nodes - i)))),
                \<lambda>j. r (j + m))
           \<and> m \<le> 3 * length nodes - i
           \<and> (length (take (nat kk) (foldl addNew acc (drawnNodes nodes r (3 * length nodes - i)))) < nat kk
                \<longrightarrow> m = 3 * length nodes - i)"
  using assms
proof (induction kk nodes "None :: ('a \<Rightarrow> bool) option" r i acc rule: kRandomLoop.induct)
  case (1 kk nodes r i acc)
  let ?n = "length nodes"
  show ?case
  proof (cases "i < 3 * ?n \<and> int (length acc) < kk")
    case False
    have e: "kRandomLoop kk nodes None r i acc = (Inr acc, \<lambda>j. r (j + 0))"
      using False by (subst kRandomLoop.simps) auto
    show ?thesis
    proof (cases "i < 3 * ?n")
      case True
      with False "1.prems"(1) have "length acc = nat kk" by linarith
      then have "take (nat kk) (foldl addNew acc (drawnNodes nodes r (3 * ?n - i))) = acc"
        by (simp add: take_foldl_addNew_full)
      then show ?thesis using e \<open>length acc = nat kk\<close> by (intro exI [of _ 0]) simp
    next
      case False
      then have z: "3 * ?n - i = 0" by simp
      have "take (nat kk) (foldl addNew acc (drawnNodes nodes r 0)) = acc"
        using "1.prems"(1) by (simp add: drawnNodes_def)
      then show ?thesis using e z by (intro exI [of _ 0]) simp
    qed
  next
    case True
    then have pos: "0 < ?n" by auto
    let ?idx = "unat (r 0) mod ?n"
    let ?r' = "\<lambda>j. r (Suc j)"
    let ?node = "nodes ! ?idx"
    have ro: "randomOffset r ?n = (Inr ?idx, ?r')"
      using randomOffset_in_range [OF pos "1.prems"(2)] .
    have ro': "(Inr ?idx, ?r') = randomOffset r ?n" using ro by simp
    have idx: "?idx < ?n" using pos by simp
    have nf: "\<not> (case None :: ('a \<Rightarrow> bool) option of None \<Rightarrow> False | Some f \<Rightarrow> f ?node)" by simp
    have suc: "3 * ?n - i = Suc (3 * ?n - (i + 1))" using True by linarith
    have dr: "foldl addNew acc (drawnNodes nodes r (3 * ?n - i))
              = foldl addNew (addNew acc ?node) (drawnNodes nodes ?r' (3 * ?n - (i + 1)))"
      unfolding suc drawnNodes_Suc by simp
    have p3: "i + 1 \<le> 3 * ?n" using True by simp
    have p1: "int (length (addNew acc ?node)) \<le> kk"
      using True by (cases "?node \<in> set acc") (simp_all add: addNew_old addNew_new)
    let ?res = "take (nat kk) (foldl addNew (addNew acc ?node) (drawnNodes nodes ?r' (3 * ?n - (i + 1))))"
    have "\<exists>m. kRandomLoop kk nodes None ?r' (i + 1) (addNew acc ?node) = (Inr ?res, \<lambda>j. ?r' (j + m))
           \<and> m \<le> 3 * ?n - (i + 1)
           \<and> (length ?res < nat kk \<longrightarrow> m = 3 * ?n - (i + 1))"
    proof (cases "?node \<in> set acc")
      case dup: True
      have a: "addNew acc ?node = acc" using dup by (simp add: addNew_old)
      show ?thesis
        unfolding a
        by (rule "1.hyps"(2) [OF True ro' refl idx refl nf dup "1.prems"(1,2) p3])
    next
      case new: False
      have a: "addNew acc ?node = acc @ [?node]" using new by (simp add: addNew_new)
      show ?thesis
        unfolding a
        by (rule "1.hyps"(3) [OF True ro' refl idx refl nf new p1 [unfolded a] "1.prems"(2) p3])
    qed
    then obtain m where h: "kRandomLoop kk nodes None ?r' (i + 1) (addNew acc ?node) = (Inr ?res, \<lambda>j. ?r' (j + m))"
      "m \<le> 3 * ?n - (i + 1)" "length ?res < nat kk \<longrightarrow> m = 3 * ?n - (i + 1)"
      by (elim exE conjE)
    have e: "kRandomLoop kk nodes None r i acc = kRandomLoop kk nodes None ?r' (i + 1) (addNew acc ?node)"
      using True idx
      by (subst kRandomLoop.simps) (cases "?node \<in> set acc"; simp add: ro addNew_old addNew_new)
    have "kRandomLoop kk nodes None r i acc = (Inr ?res, \<lambda>j. r (j + (m + 1)))"
      unfolding e h(1) by simp
    moreover have "m + 1 \<le> 3 * ?n - i" using h(2) True by linarith
    moreover have "length ?res < nat kk \<longrightarrow> m + 1 = 3 * ?n - i" using h(3) True by auto
    ultimately show ?thesis unfolding dr by (intro exI [of _ "m + 1"]) simp
  qed
qed


lemma drawnNodes_members:
  assumes "0 < length nodes"
  shows "set (drawnNodes nodes r m) \<subseteq> set nodes"
  using assms by (auto simp: drawnNodes_def)

lemma firstSelected_facts:
  "distinct (firstSelected xs)" "set (firstSelected xs) = set xs"
  "length (firstSelected xs) = card (set xs)"
  by (simp_all add: firstSelected_def length_remdups_card_conv)

text \<open>
  Claim C9, amended. For \<open>1 \<le> k \<le> len(nodes)\<close>, fewer than \<open>2^32\<close> nodes (and no more
  than \<open>maxCap\<close>, as for every slice that exists) and a nil filter, for every sequence
  of random draws: \<open>kRandomNodes\<close> returns without a panic,
  after at most \<open>3 * len(nodes)\<close> draws, and what it returns is determined: the first \<open>k\<close>
  of the nodes that the first \<open>3 * len(nodes)\<close> draws select, each once, in the order in
  which they are first selected. So it returns \<open>min(k, d)\<close> elements, where \<open>d\<close> is the
  number of different nodes these draws select: at least one and at most
  \<open>min(k, len(nodes))\<close> elements, pairwise distinct, all members of \<open>nodes\<close>; when it returns
  fewer than \<open>k\<close>, it has made all \<open>3 * len(nodes)\<close> draws.
\<close>

theorem kRandomNodes_first_distinct_draws:
  assumes "1 \<le> kk" and "kk \<le> int (length nodes)" and "length nodes < 2 ^ 32"
    and "int (length nodes) \<le> maxCap"
  shows "\<exists>ks m. kRandomNodes maxCap kk nodes None r = (Inr ks, \<lambda>j. r (j + m))
           \<and> m \<le> 3 * length nodes
           \<and> ks = take (nat kk) (firstSelected (drawnNodes nodes r (3 * length nodes)))
           \<and> int (length ks) = min kk (int (card (set (drawnNodes nodes r (3 * length nodes)))))
           \<and> 1 \<le> length ks
           \<and> int (length ks) \<le> min kk (int (length nodes))
           \<and> distinct ks \<and> set ks \<subseteq> set nodes
           \<and> (int (length ks) < kk \<longrightarrow> m = 3 * length nodes)"
proof -
  let ?D = "drawnNodes nodes r (3 * length nodes)"
  let ?ks = "take (nat kk) (firstSelected ?D)"
  have pos: "0 < length nodes" using assms(1,2) by linarith
  have "\<exists>m. kRandomLoop kk nodes None r 0 []
             = (Inr (take (nat kk) (foldl addNew [] (drawnNodes nodes r (3 * length nodes - 0)))),
                \<lambda>j. r (j + m))
           \<and> m \<le> 3 * length nodes - 0
           \<and> (length (take (nat kk) (foldl addNew [] (drawnNodes nodes r (3 * length nodes - 0)))) < nat kk
                \<longrightarrow> m = 3 * length nodes - 0)"
    by (rule kRandomLoop_exact) (use assms in simp_all)
  then obtain m where h: "kRandomLoop kk nodes None r 0 [] = (Inr ?ks, \<lambda>j. r (j + m))"
    "m \<le> 3 * length nodes" "length ?ks < nat kk \<longrightarrow> m = 3 * length nodes"
    unfolding firstSelected_foldl [symmetric] by auto
  have run: "kRandomNodes maxCap kk nodes None r = (Inr ?ks, \<lambda>j. r (j + m))"
    using assms h(1) by (simp add: kRandomNodes_def)
  have ne: "?D \<noteq> []" using pos by (simp add: drawnNodes_def)
  have sub: "set ?D \<subseteq> set nodes" using pos by (rule drawnNodes_members)
  have c1: "1 \<le> card (set ?D)"
    using ne by (simp add: Suc_le_eq card_gt_0_iff)
  have c2: "card (set ?D) \<le> length nodes"
    using sub by (meson card_length card_mono List.finite_set le_trans)
  have len: "length ?ks = min (nat kk) (card (set ?D))"
    by (simp add: firstSelected_facts)
  have d: "distinct ?ks" by (simp add: firstSelected_facts distinct_take)
  have s: "set ?ks \<subseteq> set nodes"
    using sub set_take_subset [of "nat kk" "firstSelected ?D"] by (auto simp: firstSelected_facts)
  have l1: "int (length ?ks) = min kk (int (card (set ?D)))" using len assms(1) by simp
  have l2: "1 \<le> length ?ks" using len c1 assms(1) by simp
  have l3: "int (length ?ks) \<le> min kk (int (length nodes))" using l1 c2 by simp
  have l4: "int (length ?ks) < kk \<longrightarrow> m = 3 * length nodes" using h(3) assms(1) by auto
  show ?thesis
    using run h(2) l1 l2 l3 d s l4 by (intro exI [of _ ?ks] exI [of _ m]) simp
qed

text \<open>
  Claim C9, as stated, fails: when every draw is 0, the six draws allowed for two nodes
  all select the first node, and one node is returned where \<open>min(k, len(nodes)) = 2\<close>.
\<close>

theorem kRandomNodes_repeated_draws_counterexample:
  "fst (kRandomNodes (2 ^ 45) 2 [10 :: nat, 20] None (constantSource 0)) = Inr [10]
   \<and> int (length [10 :: nat]) \<noteq> min 2 (int (length [10 :: nat, 20]))"
  by (simp add: kRandomNodes_def kRandomLoop.simps randomOffset_def rand_Uint32_def
      constantSource_def)

theorem kRandomNodes_first_distinct_draws_witness:
  "(1 :: int) \<le> 2 \<and> 2 \<le> int (length [10 :: nat, 20, 30]) \<and> length [10 :: nat, 20, 30] < 2 ^ 32
   \<and> int (length [10 :: nat, 20, 30]) \<le> 2 ^ 45
   \<and> fst (kRandomNodes (2 ^ 45) 2 [10 :: nat, 20, 30] None countingSource) = Inr [10, 20]
   \<and> take (nat 2) (firstSelected (drawnNodes [10 :: nat, 20, 30] countingSource (3 * length [10 :: nat, 20, 30])))
       = [10, 20]
   \<and> int (length [10 :: nat]) < 2
   \<and> kRandomNodes (2 ^ 45) 2 [10 :: nat, 20] None (constantSource 0)
       = (Inr [10], \<lambda>j. constantSource 0 (j + 3 * length [10 :: nat, 20]))"
proof -
  have a: "fst (kRandomNodes (2 ^ 45) 2 [10 :: nat, 20, 30] None countingSource) = Inr [10, 20]"
    by (simp add: kRandomNodes_def kRandomLoop.simps randomOffset_def rand_Uint32_def
        countingSource_def)
  have h1: "(1 :: int) \<le> 2" and h2: "2 \<le> int (length [10 :: nat, 20, 30])"
    and h3: "length [10 :: nat, 20, 30] < 2 ^ 32" and h4: "int (length [10 :: nat, 20, 30]) \<le> 2 ^ 45"
    by simp_all
  note t = kRandomNodes_first_distinct_draws [OF h1 h2 h3 h4, of countingSource]
  then obtain ks m where t: "kRandomNodes (2 ^ 45) 2 [10 :: nat, 20, 30] None countingSource
        = (Inr ks, \<lambda>j. countingSource (j + m))"
      "ks = take (nat 2) (firstSelected (drawnNodes [10 :: nat, 20, 30] countingSource (3 * length [10 :: nat, 20, 30])))"
    by (elim exE conjE)
  have b: "take (nat 2) (firstSelected (drawnNodes [10 :: nat, 20, 30] countingSource (3 * length [10 :: nat, 20, 30])))
       = [10, 20]"
    using a t(1) unfolding t(2) [symmetric] by simp
  have c: "kRandomNodes (2 ^ 45) 2 [10 :: nat, 20] None (constantSource 0)
       = (Inr [10], \<lambda>j. constantSource 0 (j + 3 * length [10 :: nat, 20]))"
    by (simp add: kRandomNodes_def kRandomLoop.simps randomOffset_def rand_Uint32_def
        constantSource_def)
  show ?thesis using a b c h1 h2 h3 h4 by simp
qed

section \<open>Properties of the suspicion timer\<close>

lemma sint_succ_below:
  fixes x y :: "32 word"
  assumes "sint x < sint y"
  shows "sint (x + 1) = sint x + 1"
proof -
  have "sint y < 2 ^ 31" using sint_lt [of y] by simp
  then have hi: "sint x + 1 < 2 ^ 31" using assms by linarith
  have lo: "- (2 ^ 31) \<le> sint x + 1" using sint_ge [of x] by simp
  have "sint (x + 1) = signed_take_bit 31 (sint x + 1)"
    by (simp add: sint_word_ariths)
  also have "\<dots> = sint x + 1"
    using lo hi by (simp add: signed_take_bit_int_eq_self)
  finally show ?thesis .
qed

lemma newSuspicion_fields:
  "n (newSuspicion from0 k0 mn mx t0) = 0"
  "k (newSuspicion from0 k0 mn mx t0) = word_of_int k0"
  "confirmations (newSuspicion from0 k0 mn mx t0) = {from0}"
  "timer (newSuspicion from0 k0 mn mx t0) = Some (t0 + (if k0 < 1 then mn else mx))"
  "start (newSuspicion from0 k0 mn mx t0) = t0"
  by (simp_all add: newSuspicion_def Let_def)

lemma Confirm_rejects:
  "sint (k s) \<le> sint (n s) \<or> p \<in> confirmations s \<Longrightarrow> Confirm rst s p t = (False, s)"
  by (auto simp: Confirm_def)

lemma Confirm_accepts:
  assumes "\<not> (sint (k s) \<le> sint (n s) \<or> p \<in> confirmations s)"
  shows "fst (Confirm rst s p t) = True"
    and "confirmations (snd (Confirm rst s p t)) = insert p (confirmations s)"
    and "n (snd (Confirm rst s p t)) = n s + 1"
    and "k (snd (Confirm rst s p t)) = k s"
    and "sint (n (snd (Confirm rst s p t))) = sint (n s) + 1"
proof -
  show "fst (Confirm rst s p t) = True"
    and "confirmations (snd (Confirm rst s p t)) = insert p (confirmations s)"
    and nn: "n (snd (Confirm rst s p t)) = n s + 1"
    and "k (snd (Confirm rst s p t)) = k s"
    using assms by (simp_all add: Confirm_def Let_def timeoutFn_def)
  have "sint (n s) < sint (k s)" using assms by simp
  then show "sint (n (snd (Confirm rst s p t))) = sint (n s) + 1"
    unfolding nn by (rule sint_succ_below)
qed

lemma timerFires_fields:
  "n (timerFires s) = n s" "k (timerFires s) = k s" "confirmations (timerFires s) = confirmations s"
  by (simp_all add: timerFires_def timeoutFn_def split: option.splits)

lemma step_inv:
  assumes "k s = kw" and "from0 \<in> confirmations s" and "finite (confirmations s)"
    and "int (card (confirmations s)) = sint (n s) + 1"
    and "0 \<le> sint (n s)" and "sint (n s) \<le> max (sint (k s)) 0"
  shows "k (step rst s ev) = kw \<and> from0 \<in> confirmations (step rst s ev)
         \<and> finite (confirmations (step rst s ev))
         \<and> int (card (confirmations (step rst s ev))) = sint (n (step rst s ev)) + 1
         \<and> 0 \<le> sint (n (step rst s ev))
         \<and> sint (n (step rst s ev)) \<le> max (sint (k (step rst s ev))) 0"
proof (cases ev)
  case TimerFires
  then show ?thesis using assms by (simp add: timerFires_fields)
next
  case (Confirms p t)
  show ?thesis
  proof (cases "sint (k s) \<le> sint (n s) \<or> p \<in> confirmations s")
    case True
    then show ?thesis using assms Confirms by (simp add: Confirm_rejects)
  next
    case False
    note a = Confirm_accepts [OF False, of rst t]
    have "p \<notin> confirmations s" using False by simp
    then have "card (insert p (confirmations s)) = card (confirmations s) + 1"
      using assms(3) by simp
    moreover have "sint (n s) + 1 \<le> sint (k s)" using False by simp
    ultimately show ?thesis
      using assms Confirms a by simp
  qed
qed

lemma run_inv:
  assumes "k s = kw" and "from0 \<in> confirmations s" and "finite (confirmations s)"
    and "int (card (confirmations s)) = sint (n s) + 1"
    and "0 \<le> sint (n s)" and "sint (n s) \<le> max (sint (k s)) 0"
  shows "k (run rst s evs) = kw \<and> from0 \<in> confirmations (run rst s evs)
         \<and> finite (confirmations (run rst s evs))
         \<and> int (card (confirmations (run rst s evs))) = sint (n (run rst s evs)) + 1
         \<and> 0 \<le> sint (n (run rst s evs))
         \<and> sint (n (run rst s evs)) \<le> max (sint (k (run rst s evs))) 0"
  using assms
proof (induction evs arbitrary: s)
  case Nil
  then show ?case by (simp add: run_def)
next
  case (Cons ev evs)
  have st: "k (step rst s ev) = kw \<and> from0 \<in> confirmations (step rst s ev)
         \<and> finite (confirmations (step rst s ev))
         \<and> int (card (confirmations (step rst s ev))) = sint (n (step rst s ev)) + 1
         \<and> 0 \<le> sint (n (step rst s ev))
         \<and> sint (n (step rst s ev)) \<le> max (sint (k (step rst s ev))) 0"
    using Cons.prems by (rule step_inv)
  have e: "run rst s (ev # evs) = run rst (step rst s ev) evs" by (simp add: run_def)
  from st have a: "k (step rst s ev) = kw" "from0 \<in> confirmations (step rst s ev)"
    "finite (confirmations (step rst s ev))"
    "int (card (confirmations (step rst s ev))) = sint (n (step rst s ev)) + 1"
    "0 \<le> sint (n (step rst s ev))"
    "sint (n (step rst s ev)) \<le> max (sint (k (step rst s ev))) 0"
    by blast+
  show ?case unfolding e by (rule Cons.IH [OF a])
qed

text \<open>
  Claim C4, as stated, fails for a target outside the \<open>int32\<close> range: the timer keeps
  \<open>int32(k)\<close>. For \<open>k = 2^31\<close> that is \<open>-2^31\<close>, and the first confirmation by a new peer is
  rejected although \<open>n = 0 < k\<close>. For \<open>k = 1 - 2^32\<close> it is 1, and a confirmation is
  accepted, after which \<open>n = 1\<close> exceeds \<open>max(k, 0) = 0\<close>.
\<close>

theorem Confirm_int32_target_counterexample:
  "sint (n (newSuspicion ''a'' (2 ^ 31) 1 10 0)) = 0
   \<and> \<not> (2 ^ 31 \<le> sint (n (newSuspicion ''a'' (2 ^ 31) 1 10 0)))
   \<and> ''b'' \<notin> confirmations (newSuspicion ''a'' (2 ^ 31) 1 10 0)
   \<and> fst (Confirm untilMax (newSuspicion ''a'' (2 ^ 31) 1 10 0) ''b'' 3) = False
   \<and> sint (n (snd (Confirm untilMax (newSuspicion ''a'' (1 - 2 ^ 32) 1 10 0) ''b'' 3))) = 1
   \<and> max (1 - 2 ^ 32) (0 :: int) = 0"
  by (simp add: newSuspicion_def Confirm_def Let_def timeoutFn_def untilMax_def
      time_Since_def minDuration_def maxDuration_def)

text \<open>
  Claim C4, amended. Let \<open>s\<close> be a timer made by \<open>newSuspicion\<close> with target argument \<open>k\<close>,
  after any sequence of \<open>Confirm\<close> calls and timer expiries, and let \<open>k32 = int32(k)\<close>, the
  value the timer keeps; \<open>k32 = k\<close> when \<open>k\<close> lies in the \<open>int32\<close> range. \<open>Confirm\<close> returns
  false and leaves \<open>s\<close> as it is when \<open>n \<ge> k32\<close> or the peer is in the confirmations set,
  where the originating peer always is; otherwise it returns true, adds the peer and
  increments \<open>n\<close> by exactly one. The set holds the originating peer and the \<open>n\<close> peers
  counted so far, and \<open>0 \<le> n \<le> max(k32, 0)\<close>.
\<close>

theorem Confirm_counts_distinct_peers:
  assumes "s = run rst (newSuspicion from0 k0 mn mx t0) evs"
    and "k32 = sint (word_of_int k0 :: 32 word)"
  shows "(k32 \<le> sint (n s) \<or> p \<in> confirmations s \<longrightarrow> Confirm rst s p t = (False, s))
       \<and> (\<not> (k32 \<le> sint (n s) \<or> p \<in> confirmations s) \<longrightarrow>
            fst (Confirm rst s p t) = True
            \<and> confirmations (snd (Confirm rst s p t)) = insert p (confirmations s)
            \<and> sint (n (snd (Confirm rst s p t))) = sint (n s) + 1)
       \<and> from0 \<in> confirmations s
       \<and> Confirm rst s from0 t = (False, s)
       \<and> int (card (confirmations s)) = sint (n s) + 1
       \<and> 0 \<le> sint (n s) \<and> sint (n s) \<le> max k32 0
       \<and> k s = word_of_int k0 \<and> sint (k s) = k32
       \<and> (- (2 ^ 31) \<le> k0 \<and> k0 < 2 ^ 31 \<longrightarrow> k32 = k0)"
proof -
  have i: "k s = word_of_int k0 \<and> from0 \<in> confirmations s
         \<and> finite (confirmations s)
         \<and> int (card (confirmations s)) = sint (n s) + 1
         \<and> 0 \<le> sint (n s)
         \<and> sint (n s) \<le> max (sint (k s)) 0"
    unfolding assms(1) by (rule run_inv) (simp_all add: newSuspicion_fields)
  then have ks: "sint (k s) = k32" using assms(2) by simp
  have r: "- (2 ^ 31) \<le> k0 \<and> k0 < 2 ^ 31 \<longrightarrow> k32 = k0"
    unfolding assms(2) by (simp add: signed_of_int signed_take_bit_int_eq_self)
  show ?thesis
    using i r Confirm_rejects [of s p rst t] Confirm_rejects [of s from0 rst t]
      Confirm_accepts(1,2,5) [of s p rst t]
    unfolding ks by auto
qed

theorem Confirm_counts_distinct_peers_witness:
  "''b'' \<in> confirmations (run untilMax (newSuspicion ''a'' 2 1 10 0) [Confirms ''b'' 3])
   \<and> Confirm untilMax (run untilMax (newSuspicion ''a'' 2 1 10 0) [Confirms ''b'' 3]) ''b'' 4 = (False, (run untilMax (newSuspicion ''a'' 2 1 10 0) [Confirms ''b'' 3]))
   \<and> \<not> (2 \<le> sint (n (run untilMax (newSuspicion ''a'' 2 1 10 0) [Confirms ''b'' 3])) \<or> ''c'' \<in> confirmations (run untilMax (newSuspicion ''a'' 2 1 10 0) [Confirms ''b'' 3]))
   \<and> fst (Confirm untilMax (run untilMax (newSuspicion ''a'' 2 1 10 0) [Confirms ''b'' 3]) ''c'' 4) = True
   \<and> confirmations (snd (Confirm untilMax (run untilMax (newSuspicion ''a'' 2 1 10 0) [Confirms ''b'' 3]) ''c'' 4)) = {''a'', ''b'', ''c''}
   \<and> sint (n (snd (Confirm untilMax (run untilMax (newSuspicion ''a'' 2 1 10 0) [Confirms ''b'' 3]) ''c'' 4))) = 2
   \<and> Confirm untilMax (run untilMax (newSuspicion ''a'' 2 1 10 0) [Confirms ''b'' 3]) ''a'' 4 = (False, (run untilMax (newSuspicion ''a'' 2 1 10 0) [Confirms ''b'' 3]))
   \<and> - (2 ^ 31) \<le> (2 :: int) \<and> (2 :: int) < 2 ^ 31 \<and> sint (k (run untilMax (newSuspicion ''a'' 2 1 10 0) [Confirms ''b'' 3])) = 2"
proof -
  let ?S = "(run untilMax (newSuspicion ''a'' 2 1 10 0) [Confirms ''b'' 3])"
  have f: "sint (n ?S) = 1" "confirmations ?S = {''a'', ''b''}"
    by (simp_all add: run_def Confirm_def newSuspicion_def Let_def insert_commute timeoutFn_def
        untilMax_def time_Since_def minDuration_def maxDuration_def)
  have k2: "(2 :: int) = sint (word_of_int 2 :: 32 word)" by simp
  have b: "2 \<le> sint (n ?S) \<or> ''b'' \<in> confirmations ?S"
    and c: "\<not> (2 \<le> sint (n ?S) \<or> ''c'' \<in> confirmations ?S)"
    by (simp_all add: f)
  note tb = Confirm_counts_distinct_peers [OF refl k2, of untilMax "''a''" 1 10 0 "[Confirms ''b'' 3]" "''b''" 4]
  note tc = Confirm_counts_distinct_peers [OF refl k2, of untilMax "''a''" 1 10 0 "[Confirms ''b'' 3]" "''c''" 4]
  have "Confirm untilMax ?S ''b'' 4 = (False, ?S)" using tb b by blast
  moreover have "Confirm untilMax ?S ''a'' 4 = (False, ?S)" using tb by blast
  moreover have "fst (Confirm untilMax ?S ''c'' 4) = True
      \<and> confirmations (snd (Confirm untilMax ?S ''c'' 4)) = insert ''c'' (confirmations ?S)
      \<and> sint (n (snd (Confirm untilMax ?S ''c'' 4))) = sint (n ?S) + 1"
    using tc c by blast
  moreover have "sint (k ?S) = 2" using tb by blast
  ultimately show ?thesis using c by (simp add: f insert_commute)
qed

end
